theory Spec2Isabelle
  imports Main "HOL-Library.Word"
begin

unbundle bit_operations_syntax

section \<open>BigInt arithmetic of the engine\<close>

text \<open>
  The engine (\<^verbatim>\<open>src/utils/alpha-beta.ts\<close>) stores every bitboard and every move as a
  JavaScript \<^verbatim>\<open>bigint\<close>: an unbounded two's-complement integer, modelled as \<^typ>\<open>int\<close>.
  A shift by a negative amount shifts the other way, and \<^verbatim>\<open>/\<close> and \<^verbatim>\<open>%\<close> truncate
  towards zero.
\<close>

definition bigint_shr :: "int \<Rightarrow> int \<Rightarrow> int" where
  "bigint_shr x n = (if 0 \<le> n then drop_bit (nat n) x else push_bit (nat (- n)) x)"

definition bigint_shl :: "int \<Rightarrow> int \<Rightarrow> int" where
  "bigint_shl x n = (if 0 \<le> n then push_bit (nat n) x else drop_bit (nat (- n)) x)"

definition bigint_div :: "int \<Rightarrow> int \<Rightarrow> int" where
  "bigint_div a b = sgn a * sgn b * (\<bar>a\<bar> div \<bar>b\<bar>)"

definition bigint_rem :: "int \<Rightarrow> int \<Rightarrow> int" where
  "bigint_rem a b = a - b * bigint_div a b"

section \<open>Data model and constants\<close>

text \<open>
  \<^verbatim>\<open>Eval\<close> is a JavaScript \<^verbatim>\<open>number\<close>; every score of the engine is an integer far below
  \<open>2 ^ 53\<close> in magnitude, so the arithmetic on scores is exact and is modelled on
  \<^typ>\<open>int\<close>.
\<close>

type_synonym Bitboard = int
type_synonym Move = int
type_synonym Eval = int

record Board =
  us :: Bitboard
  them :: Bitboard
  share :: Bitboard

definition OUTCOME_WIN :: Eval where "OUTCOME_WIN = 1000000"
definition OUTCOME_DRAW :: Eval where "OUTCOME_DRAW = 0"
definition OUTCOME_LOSS :: Eval where "OUTCOME_LOSS = - 1000000"

definition BIG_TWO_COUNT :: Eval where "BIG_TWO_COUNT = 90"
definition BIG_ONE_COUNT :: Eval where "BIG_ONE_COUNT = 20"
definition SMALL_TWO_COUNT :: Eval where "SMALL_TWO_COUNT = 8"
definition SMALL_ONE_COUNT :: Eval where "SMALL_ONE_COUNT = 1"

definition CENTRE :: Eval where "CENTRE = 9"
definition CORNER :: Eval where "CORNER = 7"
definition EDGE :: Eval where "EDGE = 5"
definition SQ_BIG :: Eval where "SQ_BIG = 25"

definition LINE :: Bitboard where "LINE = 7"
definition CHUNK :: Bitboard where "CHUNK = 511"
definition DBLCHUNK :: Bitboard where "DBLCHUNK = bigint_shl CHUNK 9 OR CHUNK"
definition EXCLZONE :: Bitboard where
  "EXCLZONE = bigint_shl 63 58 OR (bigint_shl 1 54 - 1)"
definition CORNER_MASK :: Bitboard where "CORNER_MASK = 325"
definition EDGE_MASK :: Bitboard where "EDGE_MASK = 170"
definition CENTRE_MASK :: Bitboard where "CENTRE_MASK = 16"

definition ZONE_ANY :: Bitboard where "ZONE_ANY = 9"
definition NULL_MOVE :: Move where "NULL_MOVE = 81"

definition newBoard :: Board where
  "newBoard = \<lparr> us = 0, them = 0, share = bigint_shl ZONE_ANY 54 \<rparr>"

text \<open>
  The binary literals of \<^verbatim>\<open>LINE_MAGICS\<close> and \<^verbatim>\<open>PRESENCE_MAGICS\<close>, in decimal.
  For instance \<^verbatim>\<open>0b000_100_000_000_100_000_000_100\<close> is \<open>2 ^ 20 + 2 ^ 11 + 2 ^ 2\<close>.
\<close>

definition LINE_MAGICS :: "Bitboard list" where
  "LINE_MAGICS =
    [2 ^ 20 + 2 ^ 11 + 2 ^ 2,
     2 ^ 10 + 2 ^ 5,
     2 ^ 23 + 2 ^ 9 + 2 ^ 8,
     2 ^ 14 + 2 ^ 1,
     2 ^ 22 + 2 ^ 19 + 2 ^ 13 + 2 ^ 4,
     2 ^ 12 + 2 ^ 7,
     2 ^ 21 + 2 ^ 17 + 2 ^ 0,
     2 ^ 16 + 2 ^ 3,
     2 ^ 18 + 2 ^ 15 + 2 ^ 6]"

definition PRESENCE_MAGICS :: "Bitboard list" where
  "PRESENCE_MAGICS = [182, 238, 94, 245, 45, 221, 115, 235, 155]"

section \<open>Bit utilities\<close>

text \<open>
  \<^verbatim>\<open>Array.from(xs.entries()).map(f).reduce(g, z)\<close> is a left fold over the indexed
  entries of the array.
\<close>

definition lines :: "Bitboard \<Rightarrow> Bitboard" where
  "lines grid =
     foldl (\<lambda>x y. x + y) 0
       (map (\<lambda>(i, v). v * (bigint_shr grid (int i) AND 1)) (enumerate 0 LINE_MAGICS))"

definition linePresence :: "Bitboard \<Rightarrow> bool" where
  "linePresence grid \<longleftrightarrow>
     0 \<noteq> foldl (\<lambda>x y. x AND y) 255
       (map (\<lambda>(i, v). v OR ((bigint_shr grid (int i) AND 1) * 255))
          (enumerate 0 PRESENCE_MAGICS))"

section \<open>Move generator\<close>

definition generateMoves :: "Board \<Rightarrow> Move list" where
  "generateMoves board =
    (if linePresence (bigint_shr (share board) 36) \<or> linePresence (bigint_shr (share board) 45)
     then []
     else
       let zone = bigint_shr (share board) 54 AND 15 in
       if zone = ZONE_ANY then
         let nwToSw = us board OR them board;
             sToSe = bigint_shr (share board) 18 OR share board;
             large = bigint_shr (share board) 36 OR bigint_shr (share board) 45
         in filter (\<lambda>i. bigint_shr nwToSw i AND 1 = 0 \<and>
                        bigint_shr large (bigint_div i 9) AND 1 = 0)
              (map int [0..<63])
            @ filter (\<lambda>i. bigint_shr sToSe (i - 63) AND 1 = 0 \<and>
                          bigint_shr large (bigint_div i 9) AND 1 = 0)
                (map (\<lambda>i. int (i + 63)) [0..<18])
       else if zone = 7 \<or> zone = 8 then
         let sToSe = bigint_shr (share board) 18 OR share board
         in filter (\<lambda>i. bigint_shr sToSe (i - 63) AND 1 = 0)
              (map (\<lambda>i. int i + 9 * zone) [0..<9])
       else
         let nwToSw = us board OR them board
         in filter (\<lambda>i. bigint_shr nwToSw i AND 1 = 0)
              (map (\<lambda>i. int i + 9 * zone) [0..<9]))"

section \<open>Position update\<close>

definition playMove :: "Board \<Rightarrow> Move \<Rightarrow> bool \<Rightarrow> Board" where
  "playMove board move side =
    (let (us1, them1, share1, lineOccupancy) =
           (if move > 62 then
              let s = share board OR bigint_shl 1 (move - 63 + (if side then 0 else 18))
              in (us board, them board, s,
                  linePresence
                    (bigint_shr s (9 * bigint_div move 9 - 63 + (if side then 0 else 18))))
            else if side then
              let u = us board OR bigint_shl 1 move
              in (u, them board, share board,
                  linePresence (bigint_shr u (9 * bigint_div move 9)))
            else
              let t = them board OR bigint_shl 1 move
              in (us board, t, share board,
                  linePresence (bigint_shr t (9 * bigint_div move 9))));
         share2 =
           (if lineOccupancy
            then share1 OR bigint_shl 1 (36 + (if side then 0 else 9) + bigint_div move 9)
            else share1);
         nextChunk =
           (if bigint_rem move 9 > 6
            then bigint_shr (share2 OR bigint_shr share2 18) (9 * (bigint_rem move 9 - 7)) AND CHUNK
            else bigint_shr (us1 OR them1) (9 * bigint_rem move 9) AND CHUNK);
         zone =
           (if nextChunk = CHUNK \<or>
               bigint_shr (share2 OR bigint_shr share2 9) (36 + bigint_rem move 9) AND 1 = 1
            then ZONE_ANY
            else bigint_rem move 9)
     in \<lparr> us = us1, them = them1, share = (share2 AND EXCLZONE) OR bigint_shl zone 54 \<rparr>)"

section \<open>Evaluation tables\<close>

text \<open>
  \<^verbatim>\<open>popCount\<close> is a 512-entry table; entry \<open>i\<close> counts the set bits among the low nine
  bits of \<open>i\<close>.
\<close>

definition popCount_entry :: "int \<Rightarrow> Eval" where
  "popCount_entry i = foldl (\<lambda>acc j. acc + (drop_bit j i AND 1)) 0 [0..<9]"

definition popCount :: "Eval list" where
  "popCount = map popCount_entry (map int [0..<512])"

text \<open>
  The loop \<^verbatim>\<open>for (i = 0; i < 24; i += 3)\<close> of \<^verbatim>\<open>init\<close> over the eight slots, with its
  \<^verbatim>\<open>continue\<close> and its two \<^verbatim>\<open>break\<close>s. The state is
  \<open>(usWon, themWon, evaluationLarge, evaluationSmall)\<close>.
\<close>

primrec line_loop ::
  "Bitboard \<Rightarrow> Bitboard \<Rightarrow> Bitboard list \<Rightarrow> bool \<times> bool \<times> Eval \<times> Eval
     \<Rightarrow> bool \<times> bool \<times> Eval \<times> Eval" where
  "line_loop usLines themLines [] st = st"
| "line_loop usLines themLines (i # rest) st =
    (case st of (usWon, themWon, evaluationLarge, evaluationSmall) \<Rightarrow>
     let usCount = popCount ! nat (bigint_shr usLines i AND LINE);
         themCount = popCount ! nat (bigint_shr themLines i AND LINE)
     in if usCount \<noteq> 0 \<and> themCount \<noteq> 0 then
          line_loop usLines themLines rest st
        else if usCount = 3 then (True, themWon, evaluationLarge, evaluationSmall)
        else if themCount = 3 then (usWon, True, evaluationLarge, evaluationSmall)
        else
          line_loop usLines themLines rest
            (usWon, themWon,
             evaluationLarge
               + ((if usCount = 2 then BIG_TWO_COUNT else if usCount = 1 then BIG_ONE_COUNT else 0)
                  - (if themCount = 2 then BIG_TWO_COUNT
                     else if themCount = 1 then BIG_ONE_COUNT else 0)),
             evaluationSmall
               + ((if usCount = 2 then SMALL_TWO_COUNT
                   else if usCount = 1 then SMALL_ONE_COUNT else 0)
                  - (if themCount = 2 then SMALL_TWO_COUNT
                     else if themCount = 1 then SMALL_ONE_COUNT else 0))))"
definition slot_shifts :: "Bitboard list" where
  "slot_shifts = [0, 3, 6, 9, 12, 15, 18, 21]"

text \<open>The body of the two nested loops of \<^verbatim>\<open>init\<close> for one pair \<open>(us, them)\<close>.\<close>

definition init_body ::
  "Bitboard \<Rightarrow> Bitboard \<Rightarrow> Eval list \<times> Eval list \<Rightarrow> Eval list \<times> Eval list" where
  "init_body u t tables =
    (let (evaluationTableLarge, evaluationTableSmall) = tables;
         (usWon, themWon, evaluationLarge, evaluationSmall) =
            line_loop (lines u) (lines t) slot_shifts (False, False, 0, 0);
         evaluationPos =
            CORNER * (popCount ! nat (u AND CORNER_MASK) - popCount ! nat (t AND CORNER_MASK))
            + EDGE * (popCount ! nat (u AND EDGE_MASK) - popCount ! nat (t AND EDGE_MASK))
            + CENTRE * (popCount ! nat (u AND CENTRE_MASK) - popCount ! nat (t AND CENTRE_MASK));
         idx = nat (bigint_shl t 9 OR u)
     in if usWon then (evaluationTableLarge[idx := OUTCOME_WIN], evaluationTableSmall)
        else if themWon then (evaluationTableLarge[idx := OUTCOME_LOSS], evaluationTableSmall)
        else if popCount ! nat (u OR t) = 9 then
          (evaluationTableLarge[idx := OUTCOME_DRAW], evaluationTableSmall)
        else
          (evaluationTableLarge[idx := evaluationLarge + evaluationPos * SQ_BIG],
           evaluationTableSmall[idx := evaluationSmall + evaluationPos]))"

definition init :: "Eval list \<times> Eval list" where
  "init =
     fold (\<lambda>u. fold (\<lambda>t. init_body u t) (map int [0..<512])) (map int [0..<512])
       (replicate 262144 0, replicate 262144 0)"

definition EVAL_TABLE_LARGE :: "Eval list" where
  "EVAL_TABLE_LARGE = fst init"

definition EVAL_TABLE_SMALL :: "Eval list" where
  "EVAL_TABLE_SMALL = snd init"

section \<open>Static evaluator\<close>

definition evaluate :: "Board \<Rightarrow> bool \<Rightarrow> Eval" where
  "evaluate board side =
    (let decisiveEval = EVAL_TABLE_LARGE ! nat (bigint_shr (share board) 36 AND DBLCHUNK)
     in if decisiveEval = OUTCOME_WIN \<or> decisiveEval = OUTCOME_LOSS then
          (if side then decisiveEval else - decisiveEval)
        else
          let large = (bigint_shr (share board) 36 OR bigint_shr (share board) 45) AND CHUNK
          in if large = CHUNK then OUTCOME_DRAW
             else
               let ev1 =
                     fold (\<lambda>i ev.
                        let usData = bigint_shr (us board) (9 * i) AND CHUNK;
                            themData = bigint_shr (them board) (9 * i) AND CHUNK
                        in ev + (if bigint_shr large i AND 1 = 1 \<or> (usData OR themData) = CHUNK
                                 then 0
                                 else EVAL_TABLE_SMALL ! nat (bigint_shl themData 9 OR usData)))
                       [0, 1, 2, 3, 4, 5, 6] decisiveEval;
                   ev2 =
                     fold (\<lambda>i ev.
                        let usData = bigint_shr (share board) (9 * i - 63) AND CHUNK;
                            themData = bigint_shr (share board) (9 * i - 45) AND CHUNK
                        in ev + (if bigint_shr large i AND 1 = 1 \<or> (usData OR themData) = CHUNK
                                 then 0
                                 else EVAL_TABLE_SMALL ! nat (bigint_shl themData 9 OR usData)))
                       [7, 8] ev1
               in if side then ev2 else - ev2)"

section \<open>Alpha-beta search\<close>

record EvalAndPV =
  evaluation :: Eval
  pv :: "Move list"

text \<open>
  \<open>depth\<close> and \<open>maxDepth\<close> are JavaScript numbers that hold non-negative integers
  (\<^verbatim>\<open>Array(maxDepth)\<close> needs one, and \<open>depth\<close> counts down to the test
  \<^verbatim>\<open>depth === 0\<close>), modelled as \<^typ>\<open>nat\<close>. The \<^verbatim>\<open>for\<close> loop over the move list is
  \<open>alphaBeta_loop\<close>, which carries the loop's mutable \<open>alpha\<close> and \<open>pv\<close>; its argument
  \<open>d\<close> is \<open>depth - 1\<close>. The assignment \<^verbatim>\<open>line[maxDepth - depth] = move\<close> writes an
  element of the array only when the index is not negative (it is below \<open>maxDepth\<close>, the
  array's length, since \<open>depth\<close> is positive here); with a negative index JavaScript
  leaves the elements as they are.
\<close>

function alphaBeta :: "Board \<Rightarrow> bool \<Rightarrow> nat \<Rightarrow> Eval \<Rightarrow> Eval \<Rightarrow> nat \<Rightarrow> EvalAndPV"
  and alphaBeta_loop ::
    "Board \<Rightarrow> bool \<Rightarrow> nat \<Rightarrow> Eval \<Rightarrow> Eval \<Rightarrow> nat \<Rightarrow> Move list \<Rightarrow> Move list \<Rightarrow> EvalAndPV"
  where
  "alphaBeta board side 0 alpha beta maxDepth =
    (let ev = evaluate board side;
         adjusted_eval =
           (if ev = OUTCOME_WIN then ev - int maxDepth + 0
            else if ev = OUTCOME_LOSS then ev + int maxDepth - 0
            else ev)
     in \<lparr> evaluation = adjusted_eval, pv = replicate maxDepth NULL_MOVE \<rparr>)"
| "alphaBeta board side (Suc d) alpha beta maxDepth =
    (let moveList = generateMoves board
     in if length moveList = 0 then
          let ev = EVAL_TABLE_LARGE ! nat (bigint_shr (share board) 36 AND DBLCHUNK)
                     * (if side then 1 else - 1);
              adjusted_eval =
                (if ev = OUTCOME_WIN then ev - int maxDepth + int (Suc d)
                 else if ev = OUTCOME_LOSS then ev + int maxDepth - int (Suc d)
                 else OUTCOME_DRAW)
          in \<lparr> evaluation = adjusted_eval, pv = replicate maxDepth NULL_MOVE \<rparr>
        else
          alphaBeta_loop board side d alpha beta maxDepth (replicate maxDepth NULL_MOVE) moveList)"
| "alphaBeta_loop board side d alpha beta maxDepth cur [] =
    \<lparr> evaluation = alpha, pv = cur \<rparr>"
| "alphaBeta_loop board side d alpha beta maxDepth cur (move # rest) =
    (let r = alphaBeta (playMove board move side) (\<not> side) d (- beta) (- alpha) maxDepth;
         ev = - evaluation r;
         line = (if Suc d \<le> maxDepth then (pv r)[maxDepth - Suc d := move] else pv r)
     in if ev \<ge> beta then \<lparr> evaluation = beta, pv = line \<rparr>
        else if ev > alpha then alphaBeta_loop board side d ev beta maxDepth line rest
        else alphaBeta_loop board side d alpha beta maxDepth cur rest)"
  by pat_completeness auto
termination
  by (relation "measures
        [\<lambda>x. case x of Inl (b, s, depth, a, be, m) \<Rightarrow> 2 * depth
                     | Inr (b, s, d, a, be, m, cur, ms) \<Rightarrow> 2 * d + 1,
         \<lambda>x. case x of Inl _ \<Rightarrow> 0 | Inr (b, s, d, a, be, m, cur, ms) \<Rightarrow> length ms]") auto

definition alphaBetaRootCall :: "Board \<Rightarrow> bool \<Rightarrow> nat \<Rightarrow> EvalAndPV" where
  "alphaBetaRootCall board side depth =
     alphaBeta board side depth OUTCOME_LOSS OUTCOME_WIN depth"

section \<open>Vocabulary of the specification\<close>

text \<open>
  The eight lines of a 3x3 grid as 9-bit masks, in the order of the slots of \<open>lines\<close>:
  the three columns (cells 0-3-6, 1-4-7, 2-5-8), the three rows (0-1-2, 3-4-5, 6-7-8), the
  main diagonal (0-4-8) and the anti-diagonal (2-4-6). They are the masks of the array
  \<^verbatim>\<open>lines\<close> of the user interface (\<^verbatim>\<open>calculateGameStatus\<close>), which tests a completed
  line by \<^verbatim>\<open>(line & grid) === line\<close>.
\<close>

definition line_masks :: "Bitboard list" where
  "line_masks = [73, 146, 292, 7, 56, 448, 273, 84]"

definition has_line :: "Bitboard \<Rightarrow> bool" where
  "has_line g \<longleftrightarrow> list_ex (\<lambda>line. line AND g = line) line_masks"

text \<open>Slot \<open>k\<close> of a word of \<open>lines\<close>, read as \<^verbatim>\<open>init\<close> reads it: \<^verbatim>\<open>(w >> 3k) & LINE\<close>.\<close>

definition line_slot :: "Bitboard \<Rightarrow> nat \<Rightarrow> Bitboard" where
  "line_slot w k = bigint_shr w (3 * int k) AND LINE"

text \<open>The number of marks of a 9-bit grid, counted as \<^verbatim>\<open>init\<close> counts them.\<close>

definition marks :: "Bitboard \<Rightarrow> Eval" where
  "marks g = popCount ! nat g"

text \<open>The fields of a position: next zone, decided zones, occupied cells.\<close>

definition next_zone :: "Board \<Rightarrow> Bitboard" where
  "next_zone b = bigint_shr (share b) 54 AND 15"

definition meta_bits :: "Board \<Rightarrow> Bitboard" where
  "meta_bits b = bigint_shr (share b) 36 AND DBLCHUNK"

definition zone_decided :: "Board \<Rightarrow> nat \<Rightarrow> bool" where
  "zone_decided b z \<longleftrightarrow> bit (share b) (36 + z) \<or> bit (share b) (45 + z)"

definition cell_occupied :: "Board \<Rightarrow> nat \<Rightarrow> bool" where
  "cell_occupied b c \<longleftrightarrow>
     (if c < 63 then bit (us b) c \<or> bit (them b) c
      else bit (share b) (c - 63) \<or> bit (share b) (c - 63 + 18))"

definition zone_full :: "Board \<Rightarrow> nat \<Rightarrow> bool" where
  "zone_full b z \<longleftrightarrow> list_all (\<lambda>j. cell_occupied b (9 * z + j)) [0..<9]"

text \<open>
  Positions reached from a board by playing moves that \<open>generateMoves\<close> offers, the sides
  alternating: \<open>play_from b side ms\<close> is the position after the moves \<open>ms\<close> and the side
  to play next, or \<open>None\<close> when some move is not offered.
\<close>

fun play_from :: "Board \<Rightarrow> bool \<Rightarrow> Move list \<Rightarrow> (Board \<times> bool) option" where
  "play_from b side [] = Some (b, side)"
| "play_from b side (m # ms) =
     (if m \<in> set (generateMoves b) then play_from (playMove b m side) (\<not> side) ms else None)"

text \<open>
  The check made on every slot of every 9-bit grid: \<open>s\<close> is the slot, \<open>m\<close> the marks of
  the grid on the slot's line, \<open>line\<close> the line's mask.
\<close>

definition slot_check :: "Bitboard \<Rightarrow> Bitboard \<Rightarrow> Bitboard \<Rightarrow> bool" where
  "slot_check s m line \<longleftrightarrow>
     (let c = popCount_entry s
      in 0 \<le> s \<and> s < 8 \<and> 0 \<le> c \<and> c \<le> 3 \<and> c = popCount_entry m \<and>
         (s = 7 \<longleftrightarrow> m = line) \<and> (c = 3 \<longleftrightarrow> m = line) \<and> (c = 0 \<longleftrightarrow> m = 0))"

definition grid_check :: "Bitboard \<Rightarrow> bool" where
  "grid_check g \<longleftrightarrow>
     (let w = lines g
      in 0 \<le> w \<and> w < 2 ^ 24 \<and>
         list_all (\<lambda>(k, line). slot_check (drop_bit (3 * k) w AND 7) (g AND line) line)
           (enumerate 0 line_masks))"

section \<open>Auxiliary definitions of the proofs\<close>

text \<open>
  \<open>playMove\<close> cut at its three stages: the tail that computes the next zone
  (\<open>zone_after\<close>), the record it returns (\<open>finish_move\<close>) and the meta bit of a completed
  sub-board (\<open>meta_won\<close>), each with the text of \<open>playMove\<close>.
\<close>

definition zone_after :: "Bitboard \<Rightarrow> Bitboard \<Rightarrow> Bitboard \<Rightarrow> Move \<Rightarrow> Bitboard" where
  "zone_after us1 them1 share2 move =
    (let nextChunk =
           (if bigint_rem move 9 > 6
            then bigint_shr (share2 OR bigint_shr share2 18) (9 * (bigint_rem move 9 - 7)) AND CHUNK
            else bigint_shr (us1 OR them1) (9 * bigint_rem move 9) AND CHUNK)
     in if nextChunk = CHUNK \<or>
           bigint_shr (share2 OR bigint_shr share2 9) (36 + bigint_rem move 9) AND 1 = 1
        then ZONE_ANY
        else bigint_rem move 9)"

definition finish_move :: "Bitboard \<Rightarrow> Bitboard \<Rightarrow> Bitboard \<Rightarrow> Move \<Rightarrow> Board" where
  "finish_move us1 them1 share2 move =
     \<lparr> us = us1, them = them1,
       share = (share2 AND EXCLZONE) OR bigint_shl (zone_after us1 them1 share2 move) 54 \<rparr>"

definition meta_won :: "Bitboard \<Rightarrow> bool \<Rightarrow> Move \<Rightarrow> bool \<Rightarrow> Bitboard" where
  "meta_won share1 side move occ =
     (if occ then share1 OR bigint_shl 1 (36 + (if side then 0 else 9) + bigint_div move 9)
      else share1)"

text \<open>
  The same stages for a move index \<open>m\<close> given as a natural number, with bits instead of
  shifts; \<open>occ\<close> stands for the result of the line test.
\<close>

definition mark_us :: "Board \<Rightarrow> nat \<Rightarrow> bool \<Rightarrow> Bitboard" where
  "mark_us board m side = (if m \<le> 62 \<and> side then us board OR push_bit m 1 else us board)"

definition mark_them :: "Board \<Rightarrow> nat \<Rightarrow> bool \<Rightarrow> Bitboard" where
  "mark_them board m side = (if m \<le> 62 \<and> \<not> side then them board OR push_bit m 1 else them board)"

definition mark_share :: "Board \<Rightarrow> nat \<Rightarrow> bool \<Rightarrow> bool \<Rightarrow> Bitboard" where
  "mark_share board m side occ =
     (let share1 = (if m > 62 then share board OR push_bit (m - 63 + (if side then 0 else 18)) 1
                    else share board)
      in if occ then share1 OR push_bit (36 + (if side then 0 else 9) + m div 9) 1 else share1)"

definition zone_bits :: "Bitboard \<Rightarrow> Bitboard \<Rightarrow> Bitboard \<Rightarrow> nat \<Rightarrow> Bitboard" where
  "zone_bits u t s c =
     (if (if c > 6
          then \<forall>j<9. bit s (9 * (c - 7) + j) \<or> bit s (9 * (c - 7) + j + 18)
          else \<forall>j<9. bit u (9 * c + j) \<or> bit t (9 * c + j))
         \<or> bit s (36 + c) \<or> bit s (45 + c)
      then 9 else int c)"

definition playMove_with :: "Board \<Rightarrow> nat \<Rightarrow> bool \<Rightarrow> bool \<Rightarrow> Board" where
  "playMove_with board m side occ =
     \<lparr> us = mark_us board m side, them = mark_them board m side,
       share = (mark_share board m side occ AND EXCLZONE)
                 OR push_bit 54
                      (zone_bits (mark_us board m side) (mark_them board m side)
                         (mark_share board m side occ) (m mod 9)) \<rparr>"

text \<open>The invariant of the next-zone field: a forced zone is not a decided one.\<close>

definition zone_ok :: "Board \<Rightarrow> bool" where
  "zone_ok b \<longleftrightarrow>
     0 \<le> next_zone b \<and> next_zone b \<le> 9 \<and>
     (next_zone b \<noteq> 9 \<longrightarrow> \<not> zone_decided b (nat (next_zone b)))"

text \<open>
  The table index of a pair, the result of the line loop for it, and the values that
  \<open>init_body\<close> writes (\<open>None\<close>: the small table is not written).
\<close>

definition idx_of :: "Bitboard \<times> Bitboard \<Rightarrow> nat" where
  "idx_of p = nat (bigint_shl (snd p) 9 OR fst p)"

definition outcome_of :: "Bitboard \<Rightarrow> Bitboard \<Rightarrow> bool \<times> bool \<times> Eval \<times> Eval" where
  "outcome_of u t = line_loop (lines u) (lines t) slot_shifts (False, False, 0, 0)"

definition position_value :: "Bitboard \<Rightarrow> Bitboard \<Rightarrow> Eval" where
  "position_value u t =
     CORNER * (popCount ! nat (u AND CORNER_MASK) - popCount ! nat (t AND CORNER_MASK))
     + EDGE * (popCount ! nat (u AND EDGE_MASK) - popCount ! nat (t AND EDGE_MASK))
     + CENTRE * (popCount ! nat (u AND CENTRE_MASK) - popCount ! nat (t AND CENTRE_MASK))"

definition large_value :: "Bitboard \<times> Bitboard \<Rightarrow> Eval" where
  "large_value p =
     (case outcome_of (fst p) (snd p) of (usWon, themWon, evaluationLarge, evaluationSmall) \<Rightarrow>
        if usWon then OUTCOME_WIN
        else if themWon then OUTCOME_LOSS
        else if popCount ! nat (fst p OR snd p) = 9 then OUTCOME_DRAW
        else evaluationLarge + position_value (fst p) (snd p) * SQ_BIG)"

definition small_value :: "Bitboard \<times> Bitboard \<Rightarrow> Eval option" where
  "small_value p =
     (case outcome_of (fst p) (snd p) of (usWon, themWon, evaluationLarge, evaluationSmall) \<Rightarrow>
        if usWon \<or> themWon \<or> popCount ! nat (fst p OR snd p) = 9 then None
        else Some (evaluationSmall + position_value (fst p) (snd p)))"

definition grid_pairs :: "(Bitboard \<times> Bitboard) list" where
  "grid_pairs = List.product (map int [0..<512]) (map int [0..<512])"

section \<open>Bit utilities: proofs\<close>

lemmas bigint_defs = bigint_shr_def bigint_shl_def bigint_div_def bigint_rem_def

lemma grid_in_range: "0 \<le> g \<Longrightarrow> g < 512 \<Longrightarrow> g \<in> set (map int [0..<512])"
  by (auto simp: image_iff intro: bexI [of _ "nat g"])

lemma grid_check_all: "list_all grid_check (map int [0..<512])"
  by code_simp

lemma line_slot_eq: "line_slot w k = drop_bit (3 * k) w AND 7"
  by (simp add: line_slot_def bigint_shr_def LINE_def nat_mult_distrib)

lemma length_line_masks: "length line_masks = 8"
  by (simp add: line_masks_def)

lemma grid_check_range: "0 \<le> g \<Longrightarrow> g < 512 \<Longrightarrow> grid_check g"
  using grid_check_all grid_in_range [of g] unfolding list_all_iff by blast

lemma slot_check_line:
  assumes "0 \<le> g" "g < 512" "k < 8"
  shows "slot_check (line_slot (lines g) k) (g AND line_masks ! k) (line_masks ! k)"
proof -
  have "(k, line_masks ! k) \<in> set (enumerate 0 line_masks)"
    using assms(3) by (simp add: in_set_enumerate_eq length_line_masks)
  with grid_check_range [OF assms(1,2)] show ?thesis
    unfolding grid_check_def Let_def list_all_iff line_slot_eq by blast
qed

lemma popCount_nth: "0 \<le> x \<Longrightarrow> x < 512 \<Longrightarrow> popCount ! nat x = popCount_entry x"
  by (simp add: popCount_def)

lemma marks_eq: "0 \<le> x \<Longrightarrow> x < 512 \<Longrightarrow> marks x = popCount_entry x"
  by (simp add: marks_def popCount_nth)

lemma and_mask_range: "0 \<le> (g::int) \<Longrightarrow> g < 512 \<Longrightarrow> 0 \<le> g AND l \<and> g AND l < 512"
  by (metis AND_upper1 and_nonnegative_int_iff le_less_trans)

text \<open>
  Claim C1, as amended. For every 9-bit grid \<open>g\<close> and every slot \<open>k < 8\<close>, \<open>lines g\<close> is a
  24-bit word whose slot \<open>k\<close> holds a 3-bit pattern with as many set bits (0 to 3) as \<open>g\<close> has
  marks on line \<open>k\<close> of \<open>line_masks\<close>, an assignment of lines to slots that does not depend
  on \<open>g\<close>. The slot is not the count itself: it equals 7 (not 3) exactly when the line is
  completed, which is also exactly when its population count is 3.
\<close>

theorem lines_slots:
  assumes "0 \<le> g" "g < 512" "k < 8"
  shows "0 \<le> lines g \<and> lines g < 2 ^ 24 \<and>
         marks (line_slot (lines g) k) = marks (g AND line_masks ! k) \<and>
         0 \<le> marks (line_slot (lines g) k) \<and> marks (line_slot (lines g) k) \<le> 3 \<and>
         (line_slot (lines g) k = 7 \<longleftrightarrow> g AND line_masks ! k = line_masks ! k) \<and>
         (marks (line_slot (lines g) k) = 3 \<longleftrightarrow> g AND line_masks ! k = line_masks ! k)"
proof -
  have sc: "slot_check (line_slot (lines g) k) (g AND line_masks ! k) (line_masks ! k)"
    by (rule slot_check_line [OF assms])
  then have s: "0 \<le> line_slot (lines g) k" "line_slot (lines g) k < 512"
    by (simp_all add: slot_check_def Let_def)
  have m: "0 \<le> g AND line_masks ! k" "g AND line_masks ! k < 512"
    using and_mask_range [OF assms(1,2)] by simp_all
  have w: "0 \<le> lines g \<and> lines g < 2 ^ 24"
    using grid_check_range [OF assms(1,2)] by (simp add: grid_check_def Let_def)
  show ?thesis
    using sc w unfolding marks_eq [OF s] marks_eq [OF m] slot_check_def Let_def by auto
qed

theorem lines_slots_witness:
  "marks (line_slot (lines 7) 3) = marks (7 AND line_masks ! 3) \<and> line_slot (lines 7) 3 = 7"
  using lines_slots [of 7 3] by (simp add: line_masks_def)

text \<open>
  Claim C1 as stated fails: in the full grid every line holds three marks, and every slot
  of \<open>lines 511\<close> reads 7, which is neither a count in 0..3 nor the value 3.
\<close>

theorem lines_slots_counterexample:
  "map (line_slot (lines 511)) [0, 1, 2, 3, 4, 5, 6, 7] = [7, 7, 7, 7, 7, 7, 7, 7]"
  by code_simp

lemma linePresence_all: "list_all (\<lambda>g. linePresence g = has_line g) (map int [0..<512])"
  by code_simp

text \<open>
  Claim C2. For every 9-bit grid \<open>g\<close>, \<open>linePresence g\<close> is true if and only if some row,
  column or diagonal has all three of its bits set in \<open>g\<close>.
\<close>

theorem linePresence_complete:
  "0 \<le> g \<Longrightarrow> g < 512 \<Longrightarrow> linePresence g \<longleftrightarrow> has_line g"
  using linePresence_all grid_in_range [of g] unfolding list_all_iff by blast

theorem linePresence_complete_witness: "linePresence 448 \<and> has_line 448 \<and> \<not> linePresence 3"
proof -
  have "has_line 448" "\<not> has_line 3" by (simp_all add: has_line_def line_masks_def)
  then show ?thesis using linePresence_complete [of 448] linePresence_complete [of 3] by simp
qed

section \<open>The opening move\<close>

text \<open>
  Claim C3. \<open>playMove newBoard 40 True\<close> has exactly bit 40 set in \<open>us\<close>, \<open>them\<close> zero, the
  meta bits (bits 36-53 of \<open>share\<close>) zero and next zone 4, and \<open>generateMoves\<close> of it returns
  exactly the eight moves 36..44 without 40.
\<close>

theorem playMove_centre: "us (playMove newBoard 40 True) = 2 ^ 40 \<and>
   them (playMove newBoard 40 True) = 0 \<and>
   meta_bits (playMove newBoard 40 True) = 0 \<and>
   next_zone (playMove newBoard 40 True) = 4 \<and>
   generateMoves (playMove newBoard 40 True) = [36, 37, 38, 39, 41, 42, 43, 44] \<and>
   length (generateMoves (playMove newBoard 40 True)) = 8"
  by code_simp

section \<open>Evaluation tables: proofs\<close>

lemma slot_shifts_map: "slot_shifts = map (\<lambda>k. 3 * int k) [0..<8]"
  by code_simp

lemma popCount_full: "popCount_entry 511 = 9"
  by code_simp

lemma init_body_writes:
  "init_body u t (L, S) =
     (L[idx_of (u, t) := large_value (u, t)],
      case small_value (u, t) of None \<Rightarrow> S | Some v \<Rightarrow> S[idx_of (u, t) := v])"
  by (simp add: init_body_def large_value_def small_value_def outcome_of_def position_value_def
        idx_of_def Let_def split: prod.splits)

lemma fold_nested:
  "fold (\<lambda>u. fold (\<lambda>t. f u t) ys) xs s = fold (\<lambda>(u, t). f u t) (List.product xs ys) s"
  by (induction xs arbitrary: s) (simp_all add: fold_map comp_def)

lemma fold_body_untouched:
  "j \<notin> idx_of ` set ps \<Longrightarrow>
   fst (fold (\<lambda>(u, t). init_body u t) ps (L, S)) ! j = L ! j \<and>
   snd (fold (\<lambda>(u, t). init_body u t) ps (L, S)) ! j = S ! j"
  by (induction ps arbitrary: L S) (auto simp: init_body_writes split: option.splits)

lemma fold_body_written:
  "distinct (map idx_of ps) \<Longrightarrow> p \<in> set ps \<Longrightarrow> idx_of p < length L \<Longrightarrow> idx_of p < length S \<Longrightarrow>
   fst (fold (\<lambda>(u, t). init_body u t) ps (L, S)) ! idx_of p = large_value p \<and>
   snd (fold (\<lambda>(u, t). init_body u t) ps (L, S)) ! idx_of p =
     (case small_value p of None \<Rightarrow> S ! idx_of p | Some v \<Rightarrow> v)"
proof (induction ps arbitrary: L S)
  case Nil
  then show ?case by simp
next
  case (Cons q ps)
  obtain u t where q: "q = (u, t)" by (cases q)
  let ?L = "L[idx_of q := large_value q]"
  let ?S = "case small_value q of None \<Rightarrow> S | Some v \<Rightarrow> S[idx_of q := v]"
  have step: "fold (\<lambda>(u, t). init_body u t) (q # ps) (L, S) =
              fold (\<lambda>(u, t). init_body u t) ps (?L, ?S)"
    unfolding q by (simp add: init_body_writes)
  have len: "length ?L = length L" "length ?S = length S"
    by (simp_all split: option.splits)
  show ?case
  proof (cases "p = q")
    case True
    from Cons.prems(1) have "idx_of q \<notin> idx_of ` set ps" by simp
    from fold_body_untouched [OF this, of ?L ?S] Cons.prems(3,4) show ?thesis
      unfolding step True by (auto split: option.splits)
  next
    case False
    with Cons.prems(2) have p: "p \<in> set ps" by simp
    from Cons.prems(1) have d: "distinct (map idx_of ps)" and ne: "idx_of q \<noteq> idx_of p"
      using p by auto
    from Cons.IH [OF d p, of ?L ?S] Cons.prems(3,4) len ne show ?thesis
      unfolding step by (auto split: option.splits)
  qed
qed

lemma idx_of_inj:
  assumes "0 \<le> u" "u < 512" "0 \<le> t" "0 \<le> u'" "u' < 512" "0 \<le> t'"
    and "idx_of (u, t) = idx_of (u', t')"
  shows "u = u' \<and> t = t'"
proof -
  have nn: "0 \<le> push_bit 9 t OR u" "0 \<le> push_bit 9 t' OR u'" using assms by simp_all
  with assms(7) have e: "push_bit 9 t OR u = push_bit 9 t' OR u'"
    by (simp add: idx_of_def bigint_shl_def eq_nat_nat_iff)
  have tk: "take_bit 9 u = u" "take_bit 9 u' = u'"
    using assms by (simp_all add: take_bit_int_eq_self)
  have "take_bit 9 (push_bit 9 t OR u) = u" "take_bit 9 (push_bit 9 t' OR u') = u'"
    by (simp_all add: tk take_bit_push_bit)
  with e have u: "u = u'" by simp
  have du: "drop_bit 9 u = 0" "drop_bit 9 u' = 0"
    using tk by (metis drop_bit_take_bit diff_self_eq_0 take_bit_0 drop_bit_of_0)+
  have "drop_bit 9 (push_bit 9 t OR u) = t" "drop_bit 9 (push_bit 9 t' OR u') = t'"
    by (simp_all add: du drop_bit_push_bit)
  with e have "t = t'" by simp
  with u show ?thesis by simp
qed

lemma idx_of_bound:
  assumes "0 \<le> u" "u < 512" "0 \<le> t" "t < 512"
  shows "idx_of (u, t) < 262144"
proof -
  have "0 \<le> push_bit 9 t" "push_bit 9 t < 2 ^ 18" "u < 2 ^ 18"
    using assms by (simp_all add: push_bit_eq_mult)
  then have "push_bit 9 t OR u < 2 ^ 18"
    by (rule OR_upper)
  then show ?thesis by (simp add: idx_of_def bigint_shl_def)
qed

lemma grid_pairs_mem: "0 \<le> u \<Longrightarrow> u < 512 \<Longrightarrow> 0 \<le> t \<Longrightarrow> t < 512 \<Longrightarrow> (u, t) \<in> set grid_pairs"
  using grid_in_range [of u] grid_in_range [of t] by (simp add: grid_pairs_def)

lemma grid_pairs_range:
  "p \<in> set grid_pairs \<Longrightarrow> 0 \<le> fst p \<and> fst p < 512 \<and> 0 \<le> snd p \<and> snd p < 512"
  by (auto simp: grid_pairs_def)

lemma grid_pairs_distinct: "distinct (map idx_of grid_pairs)"
proof -
  have "distinct grid_pairs"
    unfolding grid_pairs_def by (intro distinct_product) (simp_all add: distinct_map inj_on_def)
  moreover have "inj_on idx_of (set grid_pairs)"
  proof (rule inj_onI)
    fix p q assume "p \<in> set grid_pairs" "q \<in> set grid_pairs" "idx_of p = idx_of q"
    then show "p = q"
      using idx_of_inj [of "fst p" "snd p" "fst q" "snd q"]
        grid_pairs_range [of p] grid_pairs_range [of q]
      by (simp add: prod_eq_iff)
  qed
  ultimately show ?thesis by (simp add: distinct_map)
qed

lemma init_fold: "init = fold (\<lambda>(u, t). init_body u t) grid_pairs (replicate 262144 0, replicate 262144 0)"
  by (simp add: init_def fold_nested grid_pairs_def)

lemma tables_entry:
  assumes "0 \<le> u" "u < 512" "0 \<le> t" "t < 512"
  shows "EVAL_TABLE_LARGE ! nat (bigint_shl t 9 OR u) = large_value (u, t)"
    and "EVAL_TABLE_SMALL ! nat (bigint_shl t 9 OR u) =
           (case small_value (u, t) of None \<Rightarrow> 0 | Some v \<Rightarrow> v)"
proof -
  have b: "idx_of (u, t) < 262144" by (rule idx_of_bound [OF assms])
  have w: "fst init ! idx_of (u, t) = large_value (u, t) \<and>
        snd init ! idx_of (u, t) =
          (case small_value (u, t) of None \<Rightarrow> replicate 262144 (0::int) ! idx_of (u, t) | Some v \<Rightarrow> v)"
    unfolding init_fold
    by (rule fold_body_written [OF grid_pairs_distinct grid_pairs_mem [OF assms]]) (simp_all add: b)
  show "EVAL_TABLE_LARGE ! nat (bigint_shl t 9 OR u) = large_value (u, t)"
    using w by (simp add: EVAL_TABLE_LARGE_def idx_of_def)
  show "EVAL_TABLE_SMALL ! nat (bigint_shl t 9 OR u) =
           (case small_value (u, t) of None \<Rightarrow> 0 | Some v \<Rightarrow> v)"
    using w b by (cases "small_value (u, t)") (simp_all add: EVAL_TABLE_SMALL_def idx_of_def)
qed

lemma count_facts:
  assumes "0 \<le> g" "g < 512" "k < 8"
  shows "popCount ! nat (bigint_shr (lines g) (3 * int k) AND LINE) = 3 \<longleftrightarrow>
           g AND line_masks ! k = line_masks ! k"
    and "popCount ! nat (bigint_shr (lines g) (3 * int k) AND LINE) = 0 \<longleftrightarrow>
           g AND line_masks ! k = 0"
proof -
  have sc: "slot_check (line_slot (lines g) k) (g AND line_masks ! k) (line_masks ! k)"
    by (rule slot_check_line [OF assms])
  then have s: "0 \<le> line_slot (lines g) k" "line_slot (lines g) k < 512"
    by (simp_all add: slot_check_def Let_def)
  have e: "popCount ! nat (bigint_shr (lines g) (3 * int k) AND LINE) =
             popCount_entry (line_slot (lines g) k)"
    using popCount_nth [OF s] by (simp add: line_slot_def)
  show "popCount ! nat (bigint_shr (lines g) (3 * int k) AND LINE) = 3 \<longleftrightarrow>
           g AND line_masks ! k = line_masks ! k"
    using sc unfolding e slot_check_def Let_def by auto
  show "popCount ! nat (bigint_shr (lines g) (3 * int k) AND LINE) = 0 \<longleftrightarrow>
           g AND line_masks ! k = 0"
    using sc unfolding e slot_check_def Let_def by auto
qed

lemma has_line_iff: "has_line g \<longleftrightarrow> (\<exists>k<8. g AND line_masks ! k = line_masks ! k)"
proof
  assume "has_line g"
  then obtain l where l: "l \<in> set line_masks" "l AND g = l"
    by (auto simp: has_line_def list_ex_iff)
  from l(1) obtain k where k: "k < length line_masks" "l = line_masks ! k"
    by (auto simp: in_set_conv_nth)
  from l(2) have "g AND l = l" by (simp add: and.commute)
  with k show "\<exists>k<8. g AND line_masks ! k = line_masks ! k"
    by (auto simp: length_line_masks)
next
  assume "\<exists>k<8. g AND line_masks ! k = line_masks ! k"
  then obtain k where k: "k < 8" "g AND line_masks ! k = line_masks ! k" by blast
  from k(1) have "line_masks ! k \<in> set line_masks" by (simp add: length_line_masks)
  moreover from k(2) have "line_masks ! k AND g = line_masks ! k" by (simp add: and.commute)
  ultimately show "has_line g" unfolding has_line_def list_ex_iff by blast
qed

lemma line_loop_us_wins:
  assumes "\<forall>i\<in>set sh. popCount ! nat (bigint_shr lt i AND LINE) \<noteq> 3"
    and "\<exists>i\<in>set sh. popCount ! nat (bigint_shr lu i AND LINE) = 3 \<and>
                     popCount ! nat (bigint_shr lt i AND LINE) = 0"
  shows "\<exists>el es. line_loop lu lt sh (uw, tw, el0, es0) = (True, tw, el, es)"
  using assms
proof (induction sh arbitrary: el0 es0)
  case Nil
  then show ?case by simp
next
  case (Cons i sh)
  from Cons.prems(1) have t: "popCount ! nat (bigint_shr lt i AND LINE) \<noteq> 3" by simp
  show ?case
  proof (cases "popCount ! nat (bigint_shr lu i AND LINE) = 3 \<and>
                popCount ! nat (bigint_shr lt i AND LINE) = 0")
    case True
    then show ?thesis by (simp add: Let_def)
  next
    case False
    with Cons.prems have "\<forall>i\<in>set sh. popCount ! nat (bigint_shr lt i AND LINE) \<noteq> 3"
      and "\<exists>i\<in>set sh. popCount ! nat (bigint_shr lu i AND LINE) = 3 \<and>
                     popCount ! nat (bigint_shr lt i AND LINE) = 0"
      by auto
    note ih = Cons.IH [OF this]
    show ?thesis using False t ih by (auto simp: Let_def)
  qed
qed

lemma line_loop_them_wins:
  assumes "\<forall>i\<in>set sh. popCount ! nat (bigint_shr lu i AND LINE) \<noteq> 3"
    and "\<exists>i\<in>set sh. popCount ! nat (bigint_shr lt i AND LINE) = 3 \<and>
                     popCount ! nat (bigint_shr lu i AND LINE) = 0"
  shows "\<exists>el es. line_loop lu lt sh (uw, tw, el0, es0) = (uw, True, el, es)"
  using assms
proof (induction sh arbitrary: el0 es0)
  case Nil
  then show ?case by simp
next
  case (Cons i sh)
  from Cons.prems(1) have u: "popCount ! nat (bigint_shr lu i AND LINE) \<noteq> 3" by simp
  show ?case
  proof (cases "popCount ! nat (bigint_shr lt i AND LINE) = 3 \<and>
                popCount ! nat (bigint_shr lu i AND LINE) = 0")
    case True
    then show ?thesis by (simp add: Let_def)
  next
    case False
    with Cons.prems have "\<forall>i\<in>set sh. popCount ! nat (bigint_shr lu i AND LINE) \<noteq> 3"
      and "\<exists>i\<in>set sh. popCount ! nat (bigint_shr lt i AND LINE) = 3 \<and>
                     popCount ! nat (bigint_shr lu i AND LINE) = 0"
      by auto
    note ih = Cons.IH [OF this]
    show ?thesis using False u ih by (auto simp: Let_def)
  qed
qed

lemma line_loop_no_win:
  assumes "\<forall>i\<in>set sh. popCount ! nat (bigint_shr lu i AND LINE) \<noteq> 3 \<and>
                     popCount ! nat (bigint_shr lt i AND LINE) \<noteq> 3"
  shows "\<exists>el es. line_loop lu lt sh (uw, tw, el0, es0) = (uw, tw, el, es)"
  using assms
proof (induction sh arbitrary: el0 es0)
  case Nil
  then show ?case by simp
next
  case (Cons i sh)
  then show ?case by (auto simp: Let_def)
qed

lemma disjoint_line:
  assumes "(u::int) AND t = 0" "u AND l = l"
  shows "t AND l = 0"
proof -
  have "t AND l = t AND (u AND l)" using assms(2) by simp
  also have "\<dots> = (u AND t) AND l" by (simp add: ac_simps)
  finally show ?thesis using assms(1) by simp
qed

lemma outcome_us:
  assumes r: "0 \<le> u" "u < 512" "0 \<le> t" "t < 512" and d: "u AND t = 0"
    and w: "has_line u" "\<not> has_line t"
  shows "\<exists>el es. outcome_of u t = (True, False, el, es)"
  unfolding outcome_of_def
proof (rule line_loop_us_wins)
  show "\<forall>i\<in>set slot_shifts. popCount ! nat (bigint_shr (lines t) i AND LINE) \<noteq> 3"
    using w(2) count_facts(1) [OF r(3,4)]
    by (auto simp: slot_shifts_map has_line_iff)
  from w(1) obtain k where k: "k < 8" "u AND line_masks ! k = line_masks ! k"
    by (auto simp: has_line_iff)
  have "t AND line_masks ! k = 0" by (rule disjoint_line [OF d k(2)])
  with k count_facts [OF r(1,2) k(1)] count_facts [OF r(3,4) k(1)]
  show "\<exists>i\<in>set slot_shifts. popCount ! nat (bigint_shr (lines u) i AND LINE) = 3 \<and>
          popCount ! nat (bigint_shr (lines t) i AND LINE) = 0"
    by (auto simp: slot_shifts_map intro!: bexI [of _ k])
qed

lemma outcome_them:
  assumes r: "0 \<le> u" "u < 512" "0 \<le> t" "t < 512" and d: "u AND t = 0"
    and w: "has_line t" "\<not> has_line u"
  shows "\<exists>el es. outcome_of u t = (False, True, el, es)"
  unfolding outcome_of_def
proof (rule line_loop_them_wins)
  show "\<forall>i\<in>set slot_shifts. popCount ! nat (bigint_shr (lines u) i AND LINE) \<noteq> 3"
    using w(2) count_facts(1) [OF r(1,2)]
    by (auto simp: slot_shifts_map has_line_iff)
  from w(1) obtain k where k: "k < 8" "t AND line_masks ! k = line_masks ! k"
    by (auto simp: has_line_iff)
  have "t AND u = 0" using d by (simp add: and.commute)
  then have "u AND line_masks ! k = 0" by (rule disjoint_line [OF _ k(2)])
  with k count_facts [OF r(1,2) k(1)] count_facts [OF r(3,4) k(1)]
  show "\<exists>i\<in>set slot_shifts. popCount ! nat (bigint_shr (lines t) i AND LINE) = 3 \<and>
          popCount ! nat (bigint_shr (lines u) i AND LINE) = 0"
    by (auto simp: slot_shifts_map intro!: bexI [of _ k])
qed

lemma outcome_none:
  assumes r: "0 \<le> u" "u < 512" "0 \<le> t" "t < 512"
    and w: "\<not> has_line u" "\<not> has_line t"
  shows "\<exists>el es. outcome_of u t = (False, False, el, es)"
  unfolding outcome_of_def
proof (rule line_loop_no_win)
  show "\<forall>i\<in>set slot_shifts. popCount ! nat (bigint_shr (lines u) i AND LINE) \<noteq> 3 \<and>
          popCount ! nat (bigint_shr (lines t) i AND LINE) \<noteq> 3"
    using w count_facts(1) [OF r(1,2)] count_facts(1) [OF r(3,4)]
    by (auto simp: slot_shifts_map has_line_iff)
qed

text \<open>
  Claim C6. For 9-bit grids \<open>u\<close> (us) and \<open>t\<close> (them) with no common cell, at index
  \<open>(t << 9) | u\<close>: if \<open>u\<close> has a completed line and \<open>t\<close> has none, the large table
  holds \<open>1000000\<close> and the small table 0; if \<open>t\<close> has one and \<open>u\<close> none, the large table holds
  \<open>- 1000000\<close> and the small table 0; if neither has one and all nine cells are occupied,
  both hold 0.
\<close>

theorem eval_tables_decided:
  assumes "0 \<le> u" "u < 512" "0 \<le> t" "t < 512" and "u AND t = 0"
  shows "(has_line u \<and> \<not> has_line t \<longrightarrow>
            EVAL_TABLE_LARGE ! nat (bigint_shl t 9 OR u) = 1000000 \<and>
            EVAL_TABLE_SMALL ! nat (bigint_shl t 9 OR u) = 0) \<and>
         (has_line t \<and> \<not> has_line u \<longrightarrow>
            EVAL_TABLE_LARGE ! nat (bigint_shl t 9 OR u) = - 1000000 \<and>
            EVAL_TABLE_SMALL ! nat (bigint_shl t 9 OR u) = 0) \<and>
         (\<not> has_line u \<and> \<not> has_line t \<and> u OR t = 511 \<longrightarrow>
            EVAL_TABLE_LARGE ! nat (bigint_shl t 9 OR u) = 0 \<and>
            EVAL_TABLE_SMALL ! nat (bigint_shl t 9 OR u) = 0)"
proof (intro conjI impI)
  note te = tables_entry [OF assms(1-4)]
  {
    assume "has_line u \<and> \<not> has_line t"
    then obtain el es where o: "outcome_of u t = (True, False, el, es)"
      using outcome_us [OF assms] by blast
    show "EVAL_TABLE_LARGE ! nat (bigint_shl t 9 OR u) = 1000000"
      unfolding te by (simp add: large_value_def o OUTCOME_WIN_def)
    show "EVAL_TABLE_SMALL ! nat (bigint_shl t 9 OR u) = 0"
      unfolding te by (simp add: small_value_def o)
  }
  {
    assume "has_line t \<and> \<not> has_line u"
    then obtain el es where o: "outcome_of u t = (False, True, el, es)"
      using outcome_them [OF assms] by blast
    show "EVAL_TABLE_LARGE ! nat (bigint_shl t 9 OR u) = - 1000000"
      unfolding te by (simp add: large_value_def o OUTCOME_LOSS_def)
    show "EVAL_TABLE_SMALL ! nat (bigint_shl t 9 OR u) = 0"
      unfolding te by (simp add: small_value_def o)
  }
  {
    assume a: "\<not> has_line u \<and> \<not> has_line t \<and> u OR t = 511"
    then obtain el es where o: "outcome_of u t = (False, False, el, es)"
      using outcome_none [OF assms(1-4)] by blast
    have f: "popCount ! nat (u OR t) = 9"
      using a popCount_nth [of 511] by (simp add: popCount_full)
    show "EVAL_TABLE_LARGE ! nat (bigint_shl t 9 OR u) = 0"
      unfolding te by (simp add: large_value_def o f OUTCOME_DRAW_def)
    show "EVAL_TABLE_SMALL ! nat (bigint_shl t 9 OR u) = 0"
      unfolding te by (simp add: small_value_def o f)
  }
qed

theorem eval_tables_decided_witness:
  "EVAL_TABLE_LARGE ! nat (bigint_shl 8 9 OR 7) = 1000000 \<and>
   EVAL_TABLE_SMALL ! nat (bigint_shl 8 9 OR 7) = 0 \<and>
   EVAL_TABLE_LARGE ! nat (bigint_shl 7 9 OR 8) = - 1000000 \<and>
   EVAL_TABLE_SMALL ! nat (bigint_shl 7 9 OR 8) = 0 \<and>
   EVAL_TABLE_LARGE ! nat (bigint_shl 114 9 OR 397) = 0 \<and>
   EVAL_TABLE_SMALL ! nat (bigint_shl 114 9 OR 397) = 0"
proof -
  have l: "has_line 7" "\<not> has_line 8" "\<not> has_line 397" "\<not> has_line 114"
    by (simp_all add: has_line_def line_masks_def)
  show ?thesis
    using eval_tables_decided [of 7 8] eval_tables_decided [of 8 7]
      eval_tables_decided [of 397 114] l
    by simp
qed

text \<open>A table entry that is a heuristic value: the meta-board with only the centre won.\<close>

lemma popCount_small: "popCount ! 0 = 0" "popCount ! 2 = 1" "popCount ! 16 = 1"
proof -
  have "popCount_entry 0 = 0" "popCount_entry 2 = 1" "popCount_entry 16 = 1" by code_simp+
  with popCount_nth [of 0] popCount_nth [of 2] popCount_nth [of 16]
  show "popCount ! 0 = 0" "popCount ! 2 = 1" "popCount ! 16 = 1" by simp_all
qed

lemma large_value_centre: "large_value (16, 0) = 305"
proof -
  have "lines 16 = 4726800" "lines 0 = 0" by code_simp+
  then have "outcome_of 16 0 = (False, False, 80, 4)"
    by (simp add: outcome_of_def slot_shifts_def bigint_shr_def popCount_small Let_def LINE_def
          BIG_TWO_COUNT_def BIG_ONE_COUNT_def SMALL_TWO_COUNT_def SMALL_ONE_COUNT_def)
  then show ?thesis
    by (simp add: large_value_def position_value_def popCount_small CORNER_MASK_def EDGE_MASK_def
          CENTRE_MASK_def CORNER_def EDGE_def CENTRE_def SQ_BIG_def)
qed

section \<open>Evaluator and search\<close>

text \<open>
  Claim C8. For every board, \<open>evaluate P True\<close> is the negation of \<open>evaluate P False\<close>.
\<close>

theorem evaluate_negation: "evaluate P True = - evaluate P False"
  by (simp add: evaluate_def Let_def OUTCOME_DRAW_def)

lemma alphaBeta_loop_window:
  "alpha \<le> beta \<Longrightarrow>
   alpha \<le> evaluation (alphaBeta_loop b s d alpha beta md cur ms) \<and>
   evaluation (alphaBeta_loop b s d alpha beta md cur ms) \<le> beta"
proof (induction ms arbitrary: alpha cur)
  case Nil
  then show ?case by simp
next
  case (Cons m ms)
  let ?ev = "- evaluation (alphaBeta (playMove b m s) (\<not> s) d (- beta) (- alpha) md)"
  let ?line = "if Suc d \<le> md
     then (pv (alphaBeta (playMove b m s) (\<not> s) d (- beta) (- alpha) md))[md - Suc d := m]
     else pv (alphaBeta (playMove b m s) (\<not> s) d (- beta) (- alpha) md)"
  show ?case
  proof (cases "?ev \<ge> beta")
    case True
    then show ?thesis using Cons.prems by (simp add: Let_def)
  next
    case False
    note nb = this
    show ?thesis
    proof (cases "?ev > alpha")
      case True
      have "?ev \<le> beta" using nb by simp
      from Cons.IH [OF this, of ?line] True nb show ?thesis
        by (simp add: Let_def)
    next
      case False
      from Cons.IH [OF Cons.prems, of cur] False nb show ?thesis
        by (simp add: Let_def)
    qed
  qed
qed

text \<open>
  The root window is \<open>[- 1000000, 1000000]\<close>, so the bound holds at every board.
\<close>

lemma alphaBeta_root_window:
  "0 < depth \<Longrightarrow>
   - 1000000 \<le> evaluation (alphaBetaRootCall P side depth) \<and>
   evaluation (alphaBetaRootCall P side depth) \<le> 1000000"
proof -
  assume "0 < depth"
  then obtain d where d: "depth = Suc d" by (cases depth) auto
  have w: "OUTCOME_LOSS \<le> OUTCOME_WIN" by (simp add: OUTCOME_LOSS_def OUTCOME_WIN_def)
  show ?thesis
    using alphaBeta_loop_window [OF w, of P side d "Suc d" "replicate (Suc d) NULL_MOVE" "generateMoves P"]
    unfolding alphaBetaRootCall_def d
    by (simp add: Let_def OUTCOME_LOSS_def OUTCOME_WIN_def OUTCOME_DRAW_def del: alphaBeta_loop.simps)
qed

text \<open>
  Claim C9. For every position reached from \<open>newBoard\<close> by moves of \<open>generateMoves\<close>, every
  side and every positive depth, the score of \<open>alphaBetaRootCall\<close> lies between
  \<open>- 1000000\<close> and \<open>1000000\<close>.
\<close>

theorem alphaBetaRootCall_bounds:
  assumes "play_from newBoard side0 ms = Some (P, side1)" and "0 < depth"
  shows "- 1000000 \<le> evaluation (alphaBetaRootCall P side depth) \<and>
         evaluation (alphaBetaRootCall P side depth) \<le> 1000000"
  using alphaBeta_root_window [OF assms(2)] .

theorem alphaBetaRootCall_bounds_witness:
  "play_from newBoard True [] = Some (newBoard, True) \<and> (0::nat) < 2 \<and>
   - 1000000 \<le> evaluation (alphaBetaRootCall newBoard False 2) \<and>
   evaluation (alphaBetaRootCall newBoard False 2) \<le> 1000000"
  using alphaBetaRootCall_bounds [of True "[]" newBoard True 2 False] by simp

text \<open>
  Claim C4. When \<open>generateMoves P\<close> is empty and the side-signed entry of
  \<open>EVAL_TABLE_LARGE\<close> for the meta-board is neither \<open>1000000\<close> nor \<open>- 1000000\<close>, then for
  every depth with \<open>1 \<le> depth \<le> maxDepth\<close> the search returns score 0 and a principal
  variation of \<open>maxDepth\<close> copies of the null move 81, whatever the entry is.
\<close>

theorem alphaBeta_no_moves_draw:
  assumes "generateMoves P = []"
    and "EVAL_TABLE_LARGE ! nat (meta_bits P) * (if side then 1 else - 1) \<noteq> 1000000"
    and "EVAL_TABLE_LARGE ! nat (meta_bits P) * (if side then 1 else - 1) \<noteq> - 1000000"
    and "1 \<le> depth" and "depth \<le> maxDepth"
  shows "alphaBeta P side depth alpha beta maxDepth =
           \<lparr> evaluation = 0, pv = replicate maxDepth 81 \<rparr>"
proof -
  from assms(4) obtain d where d: "depth = Suc d" by (cases depth) auto
  show ?thesis
    using assms(1-3) unfolding d meta_bits_def
    by (simp add: Let_def OUTCOME_WIN_def OUTCOME_LOSS_def OUTCOME_DRAW_def NULL_MOVE_def)
qed

theorem alphaBeta_no_moves_draw_witness:
  "generateMoves \<lparr> us = 511, them = 0, share = 2 ^ 40 \<rparr> = [] \<and>
   EVAL_TABLE_LARGE ! nat (meta_bits \<lparr> us = 511, them = 0, share = 2 ^ 40 \<rparr>) = 305 \<and>
   alphaBeta \<lparr> us = 511, them = 0, share = 2 ^ 40 \<rparr> True 1 (- 1000000) 1000000 2 =
     \<lparr> evaluation = 0, pv = [81, 81] \<rparr>"
proof -
  let ?P = "\<lparr> us = 511, them = 0, share = 2 ^ 40 \<rparr>"
  have g: "generateMoves ?P = []" by code_simp
  have m: "meta_bits ?P = 16" by code_simp
  have t: "EVAL_TABLE_LARGE ! nat (meta_bits ?P) = 305"
    unfolding m using tables_entry(1) [of 16 0] by (simp add: bigint_shl_def large_value_centre)
  show ?thesis
    using alphaBeta_no_moves_draw [of ?P True 1 2 "- 1000000" 1000000] g t
    by (simp add: numeral_2_eq_2)
qed

section \<open>Position update and move generator: proofs\<close>

lemma bigint_shr_nonneg: "0 \<le> n \<Longrightarrow> bigint_shr x n = drop_bit (nat n) x"
  by (simp add: bigint_shr_def)

lemma bigint_shl_nonneg: "0 \<le> n \<Longrightarrow> bigint_shl x n = push_bit (nat n) x"
  by (simp add: bigint_shl_def)

lemma bigint_div_nonneg: "0 \<le> a \<Longrightarrow> 0 < b \<Longrightarrow> bigint_div a b = a div b"
  by (cases "a = 0") (simp_all add: bigint_div_def)

lemma bigint_rem_nonneg: "0 \<le> a \<Longrightarrow> 0 < b \<Longrightarrow> bigint_rem a b = a mod b"
  by (simp add: bigint_rem_def bigint_div_nonneg minus_mult_div_eq_mod)

lemma test_bit_0: "(drop_bit n (x::int) AND 1 = 0) \<longleftrightarrow> \<not> bit x n"
  by (simp add: and_one_eq bit_iff_odd_drop_bit even_iff_mod_2_eq_zero)

lemma test_bit_1: "(drop_bit n (x::int) AND 1 = 1) \<longleftrightarrow> bit x n"
  by (simp add: and_one_eq bit_iff_odd_drop_bit odd_iff_mod_2_eq_one)

lemma CHUNK_mask: "CHUNK = mask 9"
  by (simp add: CHUNK_def mask_eq_exp_minus_1)

lemma chunk_full: "(drop_bit n (x::int) AND CHUNK = CHUNK) \<longleftrightarrow> (\<forall>j<9. bit x (n + j))"
  unfolding CHUNK_mask by (auto simp: bit_eq_iff bit_simps)

lemma EXCLZONE_mask: "EXCLZONE = push_bit 58 (mask 6) OR mask 54"
  by (simp add: EXCLZONE_def bigint_shl_def mask_eq_exp_minus_1)

lemma bit_EXCLZONE: "bit EXCLZONE i \<longleftrightarrow> i < 54 \<or> (58 \<le> i \<and> i < 64)"
  unfolding EXCLZONE_mask by (auto simp: bit_simps)

lemma zone_write:
  assumes "0 \<le> z" "z < 16"
  shows "drop_bit 54 ((s AND EXCLZONE) OR push_bit 54 z) AND 15 = (z::int)"
proof -
  have z: "take_bit 4 z = z" using assms by (simp add: take_bit_int_eq_self)
  have m: "(15::int) = mask 4" by (simp add: mask_eq_exp_minus_1)
  have "bit (drop_bit 54 ((s AND EXCLZONE) OR push_bit 54 z) AND mask 4) i = bit (take_bit 4 z) i" for i
    by (auto simp: bit_simps bit_EXCLZONE)
  then show ?thesis unfolding m z by (simp add: bit_eq_iff)
qed

lemma playMove_share_side:
  "move > 62 \<Longrightarrow> playMove board move side =
     finish_move (us board) (them board)
       (meta_won (share board OR bigint_shl 1 (move - 63 + (if side then 0 else 18))) side move
          (linePresence (bigint_shr (share board OR bigint_shl 1 (move - 63 + (if side then 0 else 18)))
             (9 * bigint_div move 9 - 63 + (if side then 0 else 18)))))
       move"
  by (simp add: playMove_def finish_move_def zone_after_def meta_won_def Let_def split del: if_split)

lemma playMove_us_side:
  "\<not> move > 62 \<Longrightarrow> playMove board move True =
     finish_move (us board OR bigint_shl 1 move) (them board)
       (meta_won (share board) True move
          (linePresence (bigint_shr (us board OR bigint_shl 1 move) (9 * bigint_div move 9))))
       move"
  by (simp add: playMove_def finish_move_def zone_after_def meta_won_def Let_def split del: if_split)

lemma playMove_them_side:
  "\<not> move > 62 \<Longrightarrow> playMove board move False =
     finish_move (us board) (them board OR bigint_shl 1 move)
       (meta_won (share board) False move
          (linePresence (bigint_shr (them board OR bigint_shl 1 move) (9 * bigint_div move 9))))
       move"
  by (simp add: playMove_def finish_move_def zone_after_def meta_won_def Let_def split del: if_split)

lemma div_rem_nat:
  "bigint_div (int n) 9 = int (n div 9)" "bigint_rem (int n) 9 = int (n mod 9)"
  by (simp_all add: bigint_div_nonneg bigint_rem_nonneg zdiv_int zmod_int)

lemma zone_after_bits:
  "zone_after u t s (int n) = zone_bits u t s (n mod 9)"
proof (cases "n mod 9 > 6")
  case True
  then have a: "0 \<le> 9 * (int (n mod 9) - 7)" "nat (9 * (int (n mod 9) - 7)) = 9 * (n mod 9 - 7)"
    "nat (9 * int (n mod 9) - 63) = 9 * (n mod 9 - 7)"
    by simp_all
  have b: "nat (36 + int (n mod 9)) = 36 + n mod 9" by simp
  show ?thesis
    unfolding zone_after_def zone_bits_def div_rem_nat Let_def
    using True
    by (auto simp add: bigint_shr_nonneg a b chunk_full test_bit_1 bit_simps ZONE_ANY_def add_ac simp del: drop_bit_or drop_bit_and)
next
  case False
  have a: "nat (9 * int (n mod 9)) = 9 * (n mod 9)" by simp
  have b: "nat (36 + int (n mod 9)) = 36 + n mod 9" by simp
  show ?thesis
    unfolding zone_after_def zone_bits_def div_rem_nat Let_def
    using False
    by (auto simp add: bigint_shr_nonneg a b chunk_full test_bit_1 bit_simps ZONE_ANY_def add_ac simp del: drop_bit_or drop_bit_and)
qed

lemma finish_move_bits:
  "finish_move u t s (int n) =
     \<lparr> us = u, them = t, share = (s AND EXCLZONE) OR push_bit 54 (zone_bits u t s (n mod 9)) \<rparr>"
proof -
  have "0 \<le> zone_bits u t s (n mod 9)" by (simp add: zone_bits_def)
  then show ?thesis
    unfolding finish_move_def zone_after_bits by (simp add: bigint_shl_nonneg)
qed

lemma meta_won_bits:
  "meta_won s1 side (int n) occ =
     (if occ then s1 OR push_bit (36 + (if side then 0 else 9) + n div 9) 1 else s1)"
  by (cases side) (simp_all add: meta_won_def div_rem_nat bigint_shl_nonneg nat_add_distrib)

lemma playMove_shape:
  "\<exists>occ. playMove P (int n) side = playMove_with P n side occ"
proof (cases "n > 62")
  case True
  then have m: "int n > 62" by simp
  have a: "bigint_shl 1 (int n - 63 + (if side then 0 else 18)) = push_bit (n - 63 + (if side then 0 else 18)) 1"
    using True by (cases side) (simp_all add: bigint_shl_nonneg nat_add_distrib nat_diff_distrib)
  have n: "\<not> n \<le> 62" using True by simp
  show ?thesis
    unfolding playMove_share_side [OF m] finish_move_bits meta_won_bits a playMove_with_def
      mark_us_def mark_them_def mark_share_def Let_def
    by (rule exI) (simp only: n True if_True if_False simp_thms)
next
  case False
  then have m: "\<not> int n > 62" by simp
  have a: "bigint_shl 1 (int n) = push_bit n 1"
    by (simp add: bigint_shl_nonneg)
  have n: "n \<le> 62" using False by simp
  have u: "\<exists>occ. playMove P (int n) True = playMove_with P n True occ"
    unfolding playMove_us_side [OF m] finish_move_bits meta_won_bits a playMove_with_def
      mark_us_def mark_them_def mark_share_def Let_def
    by (rule exI) (simp only: n False if_True if_False simp_thms)
  have t: "\<exists>occ. playMove P (int n) False = playMove_with P n False occ"
    unfolding playMove_them_side [OF m] finish_move_bits meta_won_bits a playMove_with_def
      mark_us_def mark_them_def mark_share_def Let_def
    by (rule exI) (simp only: n False if_True if_False simp_thms)
  show ?thesis using u t by (cases side) simp_all
qed

lemma zone_bits_range: "c < 9 \<Longrightarrow> 0 \<le> zone_bits u t s c \<and> zone_bits u t s c < 16"
  by (simp add: zone_bits_def)

lemma bit_small: "0 \<le> (z::int) \<Longrightarrow> z < 16 \<Longrightarrow> 4 \<le> k \<Longrightarrow> \<not> bit z k"
proof -
  assume "0 \<le> z" "z < 16" "4 \<le> k"
  then have "take_bit 4 z = z" by (simp add: take_bit_int_eq_self)
  then have "bit z k = bit (take_bit 4 z) k" by simp
  with \<open>4 \<le> k\<close> show ?thesis by (simp add: bit_simps)
qed

lemma share_write_low:
  "i < 54 \<Longrightarrow> bit ((s AND EXCLZONE) OR push_bit 54 (z::int)) i = bit s i"
  by (simp add: bit_simps bit_EXCLZONE)

lemma share_write_high:
  "0 \<le> z \<Longrightarrow> z < 16 \<Longrightarrow> 58 \<le> i \<Longrightarrow> i < 64 \<Longrightarrow>
     bit ((s AND EXCLZONE) OR push_bit 54 (z::int)) i = bit s i"
  using bit_small [of z "i - 54"] by (simp add: bit_simps bit_EXCLZONE)

lemma next_zone_with:
  "next_zone (playMove_with P n side occ) =
     zone_bits (mark_us P n side) (mark_them P n side) (mark_share P n side occ) (n mod 9)"
  using zone_bits_range [of "n mod 9"]
  by (simp add: next_zone_def playMove_with_def bigint_shr_def zone_write del: drop_bit_or drop_bit_and)

lemma zone_decided_with:
  "c < 9 \<Longrightarrow> zone_decided (playMove_with P n side occ) c \<longleftrightarrow>
     bit (mark_share P n side occ) (36 + c) \<or> bit (mark_share P n side occ) (45 + c)"
  by (simp add: zone_decided_def playMove_with_def share_write_low)

lemma zone_full_with:
  assumes "c < 9"
  shows "zone_full (playMove_with P n side occ) c \<longleftrightarrow>
     (if c > 6
      then \<forall>j<9. bit (mark_share P n side occ) (9 * (c - 7) + j)
                \<or> bit (mark_share P n side occ) (9 * (c - 7) + j + 18)
      else \<forall>j<9. bit (mark_us P n side) (9 * c + j) \<or> bit (mark_them P n side) (9 * c + j))"
proof (cases "c > 6")
  case True
  define k where "k = c - 7"
  have k: "c = 7 + k" using True by (simp add: k_def)
  have "cell_occupied (playMove_with P n side occ) (9 * c + j) \<longleftrightarrow>
          bit (mark_share P n side occ) (9 * (c - 7) + j)
           \<or> bit (mark_share P n side occ) (9 * (c - 7) + j + 18)" if "j < 9" for j
    using that assms unfolding k
    by (simp add: cell_occupied_def playMove_with_def share_write_low)
  then show ?thesis using True by (auto simp: zone_full_def list_all_iff)
next
  case False
  have "cell_occupied (playMove_with P n side occ) (9 * c + j) \<longleftrightarrow>
          bit (mark_us P n side) (9 * c + j) \<or> bit (mark_them P n side) (9 * c + j)"
    if "j < 9" for j
  proof -
    have e: "9 * c + j < 63" using False that by auto
    show ?thesis
      unfolding cell_occupied_def playMove_with_def using e by simp
  qed
  then show ?thesis using False by (auto simp: zone_full_def list_all_iff)
qed

lemma next_zone_rule:
  assumes "0 \<le> m" "m < 81"
  shows "(next_zone (playMove P m side) = 9 \<or> next_zone (playMove P m side) = m mod 9) \<and>
         (next_zone (playMove P m side) = 9 \<longleftrightarrow>
            zone_decided (playMove P m side) (nat (m mod 9)) \<or>
            zone_full (playMove P m side) (nat (m mod 9)))"
proof -
  obtain n where n: "m = int n" using assms(1) by (metis nat_0_le)
  obtain occ where occ: "playMove P (int n) side = playMove_with P n side occ"
    using playMove_shape by blast
  have c: "n mod 9 < 9" by simp
  have im: "int n mod 9 = int (n mod 9)" by (simp add: zmod_int)
  show ?thesis
    unfolding n occ im nat_int next_zone_with zone_decided_with [OF c] zone_full_with [OF c]
    by (auto simp: zone_bits_def)
qed

text \<open>
  Claim C5. For every board, every move \<open>m\<close> in \<open>[0, 81)\<close> and every side, the next-zone
  field of \<open>playMove P m side\<close> is 9 or \<open>m mod 9\<close>, and it is 9 exactly when, in the
  resulting board, zone \<open>m mod 9\<close> is decided or all its nine cells are occupied.
\<close>

theorem playMove_next_zone:
  assumes "0 \<le> m" "m < 81"
  shows "(next_zone (playMove P m side) = 9 \<or> next_zone (playMove P m side) = m mod 9) \<and>
         (next_zone (playMove P m side) = 9 \<longleftrightarrow>
            zone_decided (playMove P m side) (nat (m mod 9)) \<or>
            zone_full (playMove P m side) (nat (m mod 9)))"
  using next_zone_rule [OF assms] .

theorem playMove_next_zone_witness:
  "next_zone (playMove newBoard 40 True) = 4 \<and>
   \<not> zone_decided (playMove newBoard 40 True) 4 \<and>
   \<not> zone_full (playMove newBoard 40 True) 4"
proof -
  have "next_zone (playMove newBoard 40 True) = 4" by code_simp
  with playMove_next_zone [of 40 newBoard True] show ?thesis by simp
qed

lemma bit_mark_us:
  "bit (mark_us P n side) i \<longleftrightarrow> bit (us P) i \<or> (i = n \<and> n \<le> 62 \<and> side)"
  by (auto simp: mark_us_def bit_simps)

lemma bit_mark_them:
  "bit (mark_them P n side) i \<longleftrightarrow> bit (them P) i \<or> (i = n \<and> n \<le> 62 \<and> \<not> side)"
  by (auto simp: mark_them_def bit_simps)

lemma bit_mark_share:
  "bit (mark_share P n side occ) i \<longleftrightarrow>
     bit (share P) i \<or> (n > 62 \<and> i = n - 63 + (if side then 0 else 18))
       \<or> (occ \<and> i = 36 + (if side then 0 else 9) + n div 9)"
  by (auto simp: mark_share_def Let_def bit_simps)

lemma playMove_with_frame:
  assumes "n < 81"
  shows "(\<forall>i. bit (us P) i \<longrightarrow> bit (us (playMove_with P n side occ)) i) \<and>
         (\<forall>i. bit (them P) i \<longrightarrow> bit (them (playMove_with P n side occ)) i) \<and>
         (\<forall>i. bit (us (playMove_with P n side occ)) i \<noteq> bit (us P) i \<longrightarrow>
               i = n \<and> n \<le> 62 \<and> side) \<and>
         (\<forall>i. bit (them (playMove_with P n side occ)) i \<noteq> bit (them P) i \<longrightarrow>
               i = n \<and> n \<le> 62 \<and> \<not> side) \<and>
         (\<forall>i<64. (i < 54 \<or> 58 \<le> i) \<longrightarrow> bit (share P) i \<longrightarrow>
               bit (share (playMove_with P n side occ)) i) \<and>
         (\<forall>i<64. bit (share (playMove_with P n side occ)) i \<noteq> bit (share P) i \<longrightarrow>
               (63 \<le> n \<and> i = n - 63 + (if side then 0 else 18)) \<or>
               i = 36 + (if side then 0 else 9) + n div 9 \<or>
               (54 \<le> i \<and> i \<le> 57))"
proof -
  let ?z = "zone_bits (mark_us P n side) (mark_them P n side) (mark_share P n side occ) (n mod 9)"
  have z: "0 \<le> ?z" "?z < 16" using zone_bits_range [of "n mod 9"] by simp_all
  have sh: "bit (share (playMove_with P n side occ)) i = bit (mark_share P n side occ) i"
    if "i < 54 \<or> (58 \<le> i \<and> i < 64)" for i
    using that share_write_low [of i] share_write_high [OF z, of i]
    by (auto simp: playMove_with_def)
  have u: "us (playMove_with P n side occ) = mark_us P n side"
    and t: "them (playMove_with P n side occ) = mark_them P n side"
    by (simp_all add: playMove_with_def)
  have a: "\<forall>i<64. (i < 54 \<or> 58 \<le> i) \<longrightarrow> bit (share P) i \<longrightarrow>
               bit (share (playMove_with P n side occ)) i"
    using sh by (auto simp: bit_mark_share)
  have b: "\<forall>i<64. bit (share (playMove_with P n side occ)) i \<noteq> bit (share P) i \<longrightarrow>
               (63 \<le> n \<and> i = n - 63 + (if side then 0 else 18)) \<or>
               i = 36 + (if side then 0 else 9) + n div 9 \<or>
               (54 \<le> i \<and> i \<le> 57)"
  proof (intro allI impI)
    fix i assume i: "i < 64" and d: "bit (share (playMove_with P n side occ)) i \<noteq> bit (share P) i"
    show "(63 \<le> n \<and> i = n - 63 + (if side then 0 else 18)) \<or>
               i = 36 + (if side then 0 else 9) + n div 9 \<or> (54 \<le> i \<and> i \<le> 57)"
    proof (cases "54 \<le> i \<and> i \<le> 57")
      case True
      then show ?thesis by simp
    next
      case False
      with i have "i < 54 \<or> (58 \<le> i \<and> i < 64)" by auto
      from sh [OF this] d show ?thesis by (auto simp: bit_mark_share)
    qed
  qed
  show ?thesis
    unfolding u t using a b by (auto simp: bit_mark_us bit_mark_them)
qed

text \<open>
  Claim C10. For every board, every move \<open>m\<close> in \<open>[0, 81)\<close> and every side, \<open>playMove\<close> keeps
  every set bit of \<open>us\<close> and \<open>them\<close> and every set bit of bits 0-53 and 58-63 of \<open>share\<close>;
  \<open>us\<close> and \<open>them\<close> change at most in bit \<open>m\<close>, and only when \<open>m \<le> 62\<close> and the word is the
  side's; among the 64 bits of \<open>share\<close> only the cell bit \<open>(m - 63) + (side ? 0 : 18)\<close> (when
  \<open>m \<ge> 63\<close>), the meta bit \<open>36 + (side ? 0 : 9) + m div 9\<close> and the next-zone field (bits
  54-57) can change, and the field is rewritten to 9 or \<open>m mod 9\<close>. The bitboards are
  64-bit words in the specification: positions 64 and above of \<open>share\<close>, which a bigint
  could hold, are outside the claim (the mask \<open>EXCLZONE\<close> clears them).
\<close>

theorem playMove_frame:
  assumes "0 \<le> m" "m < 81"
  shows "(\<forall>i. bit (us P) i \<longrightarrow> bit (us (playMove P m side)) i) \<and>
         (\<forall>i. bit (them P) i \<longrightarrow> bit (them (playMove P m side)) i) \<and>
         (\<forall>i. bit (us (playMove P m side)) i \<noteq> bit (us P) i \<longrightarrow>
               i = nat m \<and> m \<le> 62 \<and> side) \<and>
         (\<forall>i. bit (them (playMove P m side)) i \<noteq> bit (them P) i \<longrightarrow>
               i = nat m \<and> m \<le> 62 \<and> \<not> side) \<and>
         (\<forall>i<64. (i < 54 \<or> 58 \<le> i) \<longrightarrow> bit (share P) i \<longrightarrow>
               bit (share (playMove P m side)) i) \<and>
         (\<forall>i<64. bit (share (playMove P m side)) i \<noteq> bit (share P) i \<longrightarrow>
               (63 \<le> m \<and> i = nat (m - 63) + (if side then 0 else 18)) \<or>
               i = 36 + (if side then 0 else 9) + nat (m div 9) \<or>
               (54 \<le> i \<and> i \<le> 57)) \<and>
         (next_zone (playMove P m side) = 9 \<or> next_zone (playMove P m side) = m mod 9)"
proof -
  obtain n where n: "m = int n" using assms(1) by (metis nat_0_le)
  then have n81: "n < 81" using assms(2) by simp
  obtain occ where occ: "playMove P (int n) side = playMove_with P n side occ"
    using playMove_shape by blast
  have e: "nat (int n - 63) = n - 63" "nat (int n div 9) = n div 9" "(63 \<le> int n) = (63 \<le> n)"
    "(int n \<le> 62) = (n \<le> 62)"
    by (simp_all add: nat_div_distrib)
  have z: "next_zone (playMove P m side) = 9 \<or> next_zone (playMove P m side) = m mod 9"
    using next_zone_rule [OF assms] by blast
  show ?thesis
    using playMove_with_frame [OF n81, of P side occ] z
    unfolding n occ e nat_int by blast
qed

theorem playMove_frame_witness:
  "\<not> bit (us (playMove newBoard 40 True)) 3 \<and>
   \<not> bit (them (playMove newBoard 40 True)) 40 \<and>
   \<not> bit (share (playMove newBoard 40 True)) 7 \<and>
   next_zone (playMove newBoard 40 True) \<in> {9, 4}"
proof -
  have z: "\<not> bit (us newBoard) 3" "\<not> bit (them newBoard) 40" "\<not> bit (share newBoard) 7"
    by (simp_all add: newBoard_def bigint_shl_def ZONE_ANY_def bit_simps)
  have f: "(0::int) \<le> 40" "(40::int) < 81" by simp_all
  note c = playMove_frame [OF f, of newBoard True]
  from c have u: "\<forall>i. bit (us (playMove newBoard 40 True)) i \<noteq> bit (us newBoard) i \<longrightarrow>
                      i = nat 40 \<and> (40::int) \<le> 62 \<and> True"
    by blast
  from c have t: "\<forall>i. bit (them (playMove newBoard 40 True)) i \<noteq> bit (them newBoard) i \<longrightarrow>
                      i = nat 40 \<and> (40::int) \<le> 62 \<and> \<not> True"
    by blast
  from c have s: "\<forall>i<64. bit (share (playMove newBoard 40 True)) i \<noteq> bit (share newBoard) i \<longrightarrow>
                      (63 \<le> (40::int) \<and> i = nat (40 - 63) + (if True then 0 else 18)) \<or>
                      i = 36 + (if True then 0 else 9) + nat (40 div 9) \<or> (54 \<le> i \<and> i \<le> 57)"
    by blast
  from c have n: "next_zone (playMove newBoard 40 True) = 9 \<or>
                  next_zone (playMove newBoard 40 True) = 40 mod 9"
    by blast
  from u [rule_format, of 3] z(1) have "\<not> bit (us (playMove newBoard 40 True)) 3" by auto
  moreover from t [rule_format, of 40] z(2) have "\<not> bit (them (playMove newBoard 40 True)) 40"
    by auto
  moreover from s [rule_format, of 7] z(3) have "\<not> bit (share (playMove newBoard 40 True)) 7"
    by auto
  moreover from n have "next_zone (playMove newBoard 40 True) \<in> {9, 4}" by auto
  ultimately show ?thesis by blast
qed

lemma zone_ok_newBoard: "zone_ok newBoard"
  by (simp add: zone_ok_def next_zone_def newBoard_def ZONE_ANY_def bigint_defs)

lemma zone_ok_playMove:
  assumes "0 \<le> m" "m < 81"
  shows "zone_ok (playMove P m side)"
proof -
  have "0 \<le> m mod 9" "m mod 9 < 9" by simp_all
  with next_zone_rule [OF assms, of P side] show ?thesis
    unfolding zone_ok_def by (auto simp: )
qed

lemma bit_large:
  "bigint_shr (bigint_shr s 36 OR bigint_shr s 45) (int z) AND 1 = 0 \<longleftrightarrow>
     \<not> (bit s (36 + z) \<or> bit s (45 + z))"
  by (simp add: bigint_shr_def test_bit_0 bit_simps add_ac del: drop_bit_or drop_bit_and)

lemma generateMoves_sound:
  assumes ok: "zone_ok b" and m: "m \<in> set (generateMoves b)"
  shows "0 \<le> m \<and> m < 81 \<and> \<not> cell_occupied b (nat m) \<and> \<not> zone_decided b (nat (m div 9))"
proof -
  define z where "z = nat (next_zone b)"
  have z: "next_zone b = int z" "z \<le> 9" using ok by (auto simp: zone_ok_def z_def)
  have nz: "bigint_shr (share b) 54 AND 15 = int z" using z(1) by (simp add: next_zone_def)
  have nl: "\<not> (linePresence (bigint_shr (share b) 36) \<or> linePresence (bigint_shr (share b) 45))"
    using m by (auto simp: generateMoves_def)
  show ?thesis
  proof (cases "z = 9")
    case True
    from m nl consider
      (lo) i where "i < 63" "m = int i"
        "bigint_shr (us b OR them b) (int i) AND 1 = 0"
        "bigint_shr (bigint_shr (share b) 36 OR bigint_shr (share b) 45) (bigint_div (int i) 9) AND 1 = 0"
    | (hi) i where "i < 18" "m = int (i + 63)"
        "bigint_shr (bigint_shr (share b) 18 OR share b) (int (i + 63) - 63) AND 1 = 0"
        "bigint_shr (bigint_shr (share b) 36 OR bigint_shr (share b) 45) (bigint_div (int (i + 63)) 9) AND 1 = 0"
      unfolding generateMoves_def nz Let_def True
      by (auto simp: ZONE_ANY_def)
    then show ?thesis
    proof cases
      case lo
      from lo(3) have "\<not> cell_occupied b i"
        using lo(1) by (simp add: cell_occupied_def bigint_shr_def test_bit_0 bit_simps del: drop_bit_or)
      moreover from lo(4) have "\<not> zone_decided b (i div 9)"
        unfolding div_rem_nat bit_large by (simp add: zone_decided_def)
      ultimately show ?thesis using lo(1,2) by (simp add: nat_div_distrib)
    next
      case hi
      from hi(3) have "\<not> cell_occupied b (i + 63)"
        by (simp add: cell_occupied_def bigint_shr_def test_bit_0 bit_simps add_ac del: drop_bit_or)
      moreover from hi(4) have "\<not> zone_decided b ((i + 63) div 9)"
        unfolding div_rem_nat bit_large by (simp add: zone_decided_def)
      ultimately show ?thesis using hi(1,2) by (simp add: nat_div_distrib nat_add_distrib)
    qed
  next
    case False
    then have z8: "z \<le> 8" using z(2) by simp
    have nd: "\<not> zone_decided b z" using ok False z(1) by (auto simp: zone_ok_def)
    show ?thesis
    proof (cases "z = 7 \<or> z = 8")
      case True
      from m nl obtain i where i: "i < 9" "m = int i + 9 * int z"
        "bigint_shr (bigint_shr (share b) 18 OR share b) (int i + 9 * int z - 63) AND 1 = 0"
        unfolding generateMoves_def nz Let_def using True False
        by (auto simp: ZONE_ANY_def)
      have e: "nat (int i + 9 * int z - 63) = i + 9 * z - 63" "i + 9 * z \<ge> 63"
        "18 + (i + 9 * z - 63) = i + 9 * z - 63 + 18"
        using True by auto
      have mm: "nat m = i + 9 * z" using i(2) by (simp add: nat_add_distrib nat_mult_distrib)
      have dv: "(i + 9 * z) div 9 = z" using i(1) by simp
      from i(3) have "\<not> cell_occupied b (i + 9 * z)"
        using e(2)
        by (simp add: cell_occupied_def bigint_shr_def test_bit_0 bit_simps e(1,3) del: drop_bit_or)
      then show ?thesis
        using nd i(1,2) z8 dv mm by (simp add: nat_div_distrib)
    next
      case f: False
      then have z6: "z \<le> 6" using z8 by auto
      from m nl obtain i where i: "i < 9" "m = int i + 9 * int z"
        "bigint_shr (us b OR them b) (int i + 9 * int z) AND 1 = 0"
        unfolding generateMoves_def nz Let_def using f False
        by (auto simp: ZONE_ANY_def)
      have e: "nat (int i + 9 * int z) = i + 9 * z" "i + 9 * z < 63"
        using z6 i(1) by auto
      have mm: "nat m = i + 9 * z" using i(2) by (simp add: nat_add_distrib nat_mult_distrib)
      have dv: "(i + 9 * z) div 9 = z" using i(1) by simp
      from i(3) have "\<not> cell_occupied b (i + 9 * z)"
        using e(2)
        by (simp add: cell_occupied_def bigint_shr_def test_bit_0 bit_simps e(1) del: drop_bit_or)
      then show ?thesis
        using nd i(1,2) z8 dv mm by (simp add: nat_div_distrib)
    qed
  qed
qed

lemma zone_ok_play_from:
  "zone_ok b \<Longrightarrow> play_from b side ms = Some (P, side') \<Longrightarrow> zone_ok P"
proof (induction ms arbitrary: b side)
  case Nil
  then show ?case by simp
next
  case (Cons m ms)
  from Cons.prems(2) have m: "m \<in> set (generateMoves b)"
    and r: "play_from (playMove b m side) (\<not> side) ms = Some (P, side')"
    by (auto split: if_splits)
  from generateMoves_sound [OF Cons.prems(1) m] have "0 \<le> m" "m < 81" by simp_all
  then have "zone_ok (playMove b m side)" by (rule zone_ok_playMove)
  from Cons.IH [OF this r] show ?case .
qed

text \<open>
  Claim C7. For every position reached from \<open>newBoard\<close> by playing moves of
  \<open>generateMoves\<close>, the sides alternating, every move \<open>m\<close> that \<open>generateMoves\<close> offers
  there is a move index in \<open>[0, 81)\<close> whose cell is empty and whose zone \<open>m div 9\<close> is not
  decided.
\<close>

theorem generateMoves_legal:
  assumes "play_from newBoard side ms = Some (P, side')" and "m \<in> set (generateMoves P)"
  shows "0 \<le> m \<and> m < 81 \<and> \<not> cell_occupied P (nat m) \<and> \<not> zone_decided P (nat (m div 9))"
  using generateMoves_sound [OF zone_ok_play_from [OF zone_ok_newBoard assms(1)] assms(2)] .

theorem generateMoves_legal_witness:
  "play_from newBoard True [40] = Some (playMove newBoard 40 True, False) \<and>
   36 \<in> set (generateMoves (playMove newBoard 40 True)) \<and>
   \<not> cell_occupied (playMove newBoard 40 True) 36 \<and>
   \<not> zone_decided (playMove newBoard 40 True) 4"
proof -
  have p: "play_from newBoard True [40] = Some (playMove newBoard 40 True, False)"
    by code_simp
  have g: "36 \<in> set (generateMoves (playMove newBoard 40 True))"
    by code_simp
  from generateMoves_legal [OF p g] p g show ?thesis by simp
qed

end
